theory Spec2Isabelle
  imports Complex_Main
begin

section \<open>Objects, references and the game instance\<close>

text \<open>
  JavaScript objects are mutable and compared by reference (\<^verbatim>\<open>===\<close>, \<^verbatim>\<open>includes\<close>), so
  every object lives in a heap and is named by a reference. One record holds the
  properties the engine reads and writes; the four flags are the answers of
  \<^verbatim>\<open>object instanceof Base\<close>, \<^verbatim>\<open>instanceof Entity\<close>, \<^verbatim>\<open>instanceof Viewport\<close> and
  \<^verbatim>\<open>instanceof Stage\<close>, which are fixed by the prototype chain of the object.
  A property that is \<^verbatim>\<open>undefined\<close> or \<^verbatim>\<open>null\<close> is \<open>None\<close>.
  Numbers are unbounded naturals (counters) and reals (coordinates, opacity, scale and
  time stamps): the model covers the range in which JavaScript numbers are exact.
\<close>

type_synonym ref = nat

datatype jsval = Undefined | Boolean bool

fun truthy :: "jsval \<Rightarrow> bool" where
  "truthy Undefined = False"
| "truthy (Boolean b) = b"

record obj =
  isBase :: bool
  isEntity :: bool
  isViewport :: bool
  isStage :: bool
  obj_id :: "nat option"
  stage :: "ref option"
  parent :: "ref option"
  position_x :: real
  position_y :: real
  alpha :: real
  scale :: real
  derived_x :: real
  derived_y :: real
  derived_alpha :: real
  derived_scale :: real
  children :: "ref list"

datatype event =
    DidDestroy ref
  | WillStart real
  | DidStart real real
  | WillStop
  | DidStop nat
  | WillUpdate nat real real real
  | DidUpdate nat real real real

text \<open>
  The game instance as the object manager sees it: the heap, the manager's own fields
  \<^verbatim>\<open>_index\<close>, \<^verbatim>\<open>_store\<close>, \<^verbatim>\<open>_viewports\<close>, \<^verbatim>\<open>_stages\<close>, the two slots
  \<^verbatim>\<open>game.setup.viewport\<close> and \<^verbatim>\<open>game.setup.stage\<close>, the events emitted through
  \<^verbatim>\<open>game.event.emit\<close> and the warnings passed to \<^verbatim>\<open>game.debug.warn\<close>, both in order.
\<close>

record game =
  heap :: "ref \<Rightarrow> obj"
  om_index :: nat
  om_store :: "ref list"
  om_viewports :: "ref list"
  om_stages :: "ref list"
  setup_viewport :: "ref option"
  setup_stage :: "ref option"
  events :: "event list"
  warnings :: "(string \<times> string) list"

text \<open>
  Modelled from the spec: \<^verbatim>\<open>EventMixin.emit\<close> is not among the sources. The spec has
  \<^verbatim>\<open>emit(name, payload)\<close> deliver the event synchronously and return; the model records
  the emission. Handlers are code of the caller and are not part of the model.
\<close>

definition emit :: "event \<Rightarrow> game \<Rightarrow> game" where
  "emit e g = g\<lparr>events := events g @ [e]\<rparr>"

text \<open>
  Modelled from the spec: \<^verbatim>\<open>DebugManager.warn\<close> is not among the sources. The spec has a
  rejection logged and answered with a falsy signal; the model appends the message and
  its source to the log and returns \<^verbatim>\<open>undefined\<close>.
\<close>

definition warn :: "string \<Rightarrow> string \<Rightarrow> game \<Rightarrow> jsval \<times> game" where
  "warn message source g = (Undefined, g\<lparr>warnings := warnings g @ [(message, source)]\<rparr>)"

section \<open>ObjectManager\<close>

text \<open>\<^verbatim>\<open>ObjectManager.add(object)\<close>.\<close>

definition add :: "ref \<Rightarrow> game \<Rightarrow> jsval \<times> game" where
  "add object g =
     (if \<not> isBase (heap g object) then
        warn ''Objects under a game instance must inherit from the Base object class.''
          ''Whirl.Game#ObjectManager'' g
      else if object \<in> set (om_store g) then
        warn ''Object already exists in the global store. Rejecting attempt to add.''
          ''Whirl.Game#ObjectManager'' g
      else
        let g1 = g\<lparr>heap := (heap g)(object := (heap g object)\<lparr>obj_id := Some (om_index g)\<rparr>),
                   om_index := om_index g + 1\<rparr>;
            g2 = g1\<lparr>om_store := om_store g1 @ [object]\<rparr>;
            g3 = (if isViewport (heap g2 object)
                  then g2\<lparr>om_viewports := om_viewports g2 @ [object]\<rparr> else g2);
            g4 = (if isStage (heap g3 object)
                  then g3\<lparr>om_stages := om_stages g3 @ [object]\<rparr> else g3)
        in (Undefined, g4))"

text \<open>\<^verbatim>\<open>ObjectManager.get(filter)\<close>: a copy of the store, filtered when a filter is given.\<close>

definition get :: "(ref \<Rightarrow> bool) option \<Rightarrow> game \<Rightarrow> ref list" where
  "get flt g = (case flt of Some f \<Rightarrow> filter f (om_store g) | None \<Rightarrow> om_store g)"

text \<open>
  Modelled from the spec: \<^verbatim>\<open>Viewport.setStage\<close> is not among the sources. The spec has a
  viewport bound to zero or one stage, and \<^verbatim>\<open>setStage(null)\<close> clear the binding.
\<close>

definition setStage :: "ref option \<Rightarrow> ref \<Rightarrow> (ref \<Rightarrow> obj) \<Rightarrow> (ref \<Rightarrow> obj)" where
  "setStage s viewport h = h(viewport := (h viewport)\<lparr>stage := s\<rparr>)"

text \<open>The callback \<^verbatim>\<open>(item) => object._id !== item._id\<close> of the three filters.\<close>

definition keeps :: "ref \<Rightarrow> game \<Rightarrow> ref \<Rightarrow> bool" where
  "keeps object g item = (obj_id (heap g object) \<noteq> obj_id (heap g item))"

text \<open>The body of \<^verbatim>\<open>this._viewports.forEach\<close>.\<close>

definition unbind :: "ref \<Rightarrow> ref \<Rightarrow> (ref \<Rightarrow> obj) \<Rightarrow> (ref \<Rightarrow> obj)" where
  "unbind object viewport h =
     (if stage (h viewport) = Some object then setStage None viewport h else h)"

text \<open>The branch \<^verbatim>\<open>if (object instanceof Viewport)\<close> of \<^verbatim>\<open>_destroy\<close>.\<close>

definition destroy_viewport :: "ref \<Rightarrow> game \<Rightarrow> game" where
  "destroy_viewport object g =
     (if isViewport (heap g object) then
        g\<lparr>om_viewports := filter (keeps object g) (om_viewports g),
          setup_viewport := (if setup_viewport g = Some object then None else setup_viewport g)\<rparr>
      else g)"

text \<open>The branch \<^verbatim>\<open>if (object instanceof Stage)\<close> of \<^verbatim>\<open>_destroy\<close>.\<close>

definition destroy_stage :: "ref \<Rightarrow> game \<Rightarrow> game" where
  "destroy_stage object g =
     (if isStage (heap g object) then
        g\<lparr>om_stages := filter (keeps object g) (om_stages g),
          heap := fold (unbind object) (om_viewports g) (heap g),
          setup_stage := (if setup_stage g = Some object then None else setup_stage g)\<rparr>
      else g)"

text \<open>\<^verbatim>\<open>ObjectManager._destroy(object)\<close>: the result is the returned object and the new state.\<close>

definition destroy :: "ref \<Rightarrow> game \<Rightarrow> ref \<times> game" where
  "destroy object g =
     (let g1 = g\<lparr>om_store := filter (keeps object g) (om_store g)\<rparr>;
          g2 = destroy_viewport object g1;
          g3 = destroy_stage object g2
      in (object, emit (DidDestroy object) g3))"

text \<open>
  Sequences of calls on one game instance, and the ids that the accepted \<^verbatim>\<open>add\<close> calls
  of a sequence hand out, in call order: the \<^verbatim>\<open>_id\<close> the object carries when its
  \<^verbatim>\<open>add\<close> returns.
\<close>

datatype call = Add ref | Destroy ref

fun run :: "call list \<Rightarrow> game \<Rightarrow> game" where
  "run [] g = g"
| "run (Add r # cs) g = run cs (snd (add r g))"
| "run (Destroy r # cs) g = run cs (snd (destroy r g))"

definition accepted :: "ref \<Rightarrow> game \<Rightarrow> bool" where
  "accepted object g = (isBase (heap g object) \<and> object \<notin> set (om_store g))"

fun assigned :: "call list \<Rightarrow> game \<Rightarrow> nat list" where
  "assigned [] g = []"
| "assigned (Add r # cs) g =
     (let g' = snd (add r g) in
      case obj_id (heap g' r) of
        Some i \<Rightarrow> (if accepted r g then i # assigned cs g' else assigned cs g')
      | None \<Rightarrow> assigned cs g')"
| "assigned (Destroy r # cs) g = assigned cs (snd (destroy r g))"

text \<open>
  The objects the manager lists, and the state in which every listed object carries an
  id below the counter and no two listed objects carry the same id.
\<close>

definition listed :: "game \<Rightarrow> ref set" where
  "listed g = set (om_store g) \<union> set (om_viewports g) \<union> set (om_stages g)"

definition unique_ids :: "game \<Rightarrow> bool" where
  "unique_ids g =
     ((\<forall>r\<in>listed g. \<exists>i. obj_id (heap g r) = Some i \<and> i < om_index g) \<and>
      (\<forall>r\<in>listed g. \<forall>q\<in>listed g. obj_id (heap g r) = obj_id (heap g q) \<longrightarrow> r = q))"

text \<open>The object manager of a new game: \<^verbatim>\<open>_index = 0\<close> and three empty arrays.\<close>

definition new_game :: "(ref \<Rightarrow> obj) \<Rightarrow> game" where
  "new_game h =
     \<lparr>heap = h, om_index = 0, om_store = [], om_viewports = [], om_stages = [],
      setup_viewport = None, setup_stage = None, events = [], warnings = []\<rparr>"

section \<open>Container\<close>

text \<open>
  Modelled from the spec: \<^verbatim>\<open>ChildMixin.remove\<close> is not among the sources. The spec has
  detaching remove the child from the parent's ordered sequence and clear its
  \<^verbatim>\<open>parent\<close> back-reference, and be a no-op for a child that is not present.
\<close>

definition child_remove :: "ref \<Rightarrow> ref \<Rightarrow> (ref \<Rightarrow> obj) \<Rightarrow> (ref \<Rightarrow> obj)" where
  "child_remove container object h =
     (if object \<in> set (children (h container)) then
        let h1 = h(container := (h container)
                     \<lparr>children := filter (\<lambda>c. c \<noteq> object) (children (h container))\<rparr>)
        in h1(object := (h1 object)\<lparr>parent := None\<rparr>)
      else h)"

text \<open>
  The hook \<^verbatim>\<open>this.child.onAdd = (object) => ...\<close> that the constructor of Container
  installs. It answers \<^verbatim>\<open>false\<close> for a rejected object and \<^verbatim>\<open>undefined\<close> otherwise.
\<close>

definition onAdd :: "ref \<Rightarrow> ref \<Rightarrow> game \<Rightarrow> jsval \<times> game" where
  "onAdd this object g =
     (if isEntity (heap g object) then
        let h1 = (case parent (heap g object) of
                    Some p \<Rightarrow> child_remove p object (heap g)
                  | None \<Rightarrow> heap g);
            h2 = h1(object := (h1 object)\<lparr>parent := Some this\<rparr>)
        in (Undefined, g\<lparr>heap := h2\<rparr>)
      else
        (Boolean False,
         snd (warn ''Objects added to a Container must inherit from the Entity class. Rejecting attempt to add object as child.''
                ''Whirl.Container'' g)))"

text \<open>
  Modelled from the spec: \<^verbatim>\<open>ChildMixin.add\<close> is not among the sources. The spec has the
  attach rejected, with a failure signal and no mutation, when the hook rejects the
  child, and otherwise has the child appended to the new parent's list once the hook has
  detached it from its previous parent and set its back-reference.
\<close>

definition child_add :: "ref \<Rightarrow> ref \<Rightarrow> game \<Rightarrow> jsval \<times> game" where
  "child_add this object g =
     (let (r, g') = onAdd this object g in
      if r = Boolean False then (Boolean False, g')
      else (Boolean True,
            g'\<lparr>heap := (heap g')(this := (heap g' this)
                    \<lparr>children := children (heap g' this) @ [object]\<rparr>)\<rparr>))"

text \<open>\<^verbatim>\<open>Container.calculateDerived()\<close>, on the heap: \<^verbatim>\<open>this\<close> and its parent may alias.\<close>

definition calculateDerived :: "ref \<Rightarrow> (ref \<Rightarrow> obj) \<Rightarrow> (ref \<Rightarrow> obj)" where
  "calculateDerived this h =
     (let h1 = h(this := (h this)
                   \<lparr>derived_x := position_x (h this), derived_y := position_y (h this),
                    derived_alpha := alpha (h this), derived_scale := scale (h this)\<rparr>)
      in case parent (h1 this) of
           None \<Rightarrow> h1
         | Some p \<Rightarrow>
             if isEntity (h1 p) then
               h1(this := (h1 this)
                    \<lparr>derived_x := derived_x (h1 this) + derived_x (h1 p),
                     derived_y := derived_y (h1 this) + derived_y (h1 p),
                     derived_alpha := derived_alpha (h1 this) * derived_alpha (h1 p),
                     derived_scale := derived_scale (h1 this) * derived_scale (h1 p)\<rparr>)
             else h1)"

text \<open>A pass over nodes listed root first: each node is recomputed after its parent.\<close>

definition pass :: "ref list \<Rightarrow> (ref \<Rightarrow> obj) \<Rightarrow> (ref \<Rightarrow> obj)" where
  "pass nodes h = fold calculateDerived nodes h"

text \<open>Following the \<^verbatim>\<open>parent\<close> reference \<open>n\<close> times.\<close>

fun ancestor :: "nat \<Rightarrow> (ref \<Rightarrow> obj) \<Rightarrow> ref \<Rightarrow> ref option" where
  "ancestor 0 h e = Some e"
| "ancestor (Suc n) h e = (case parent (h e) of None \<Rightarrow> None | Some p \<Rightarrow> ancestor n h p)"

text \<open>
  Sequences of attach and detach calls, and the agreement of child lists and back
  references: a child list holds no entity twice, every entity in a child list names the
  holder as its parent, and every entity with a parent is in the parent's list.
\<close>

datatype tree_call = Attach ref ref | Detach ref ref

fun run_tree :: "tree_call list \<Rightarrow> game \<Rightarrow> game" where
  "run_tree [] g = g"
| "run_tree (Attach c e # cs) g = run_tree cs (snd (child_add c e g))"
| "run_tree (Detach c e # cs) g = run_tree cs (g\<lparr>heap := child_remove c e (heap g)\<rparr>)"

definition consistent :: "(ref \<Rightarrow> obj) \<Rightarrow> bool" where
  "consistent h =
     ((\<forall>c. distinct (children (h c))) \<and>
      (\<forall>c e. e \<in> set (children (h c)) \<longrightarrow> parent (h e) = Some c) \<and>
      (\<forall>e p. parent (h e) = Some p \<longrightarrow> e \<in> set (children (h p))))"

section \<open>UpdateManager\<close>

text \<open>
  The fields of the update manager, the events it emits through
  \<^verbatim>\<open>this._game.event.emit\<close>, and the number of callbacks of \<^verbatim>\<open>_update\<close> that have been
  handed to \<^verbatim>\<open>requestAnimationFrame\<close> and have not run yet.
\<close>

record update_manager =
  um_running :: bool
  um_frameRate :: nat
  um_frameCount :: nat
  um_frameDelta :: real
  um_lastDelta :: real
  um_startTime :: real
  um_elapsedTime :: real
  um_initTime :: real
  emitted :: "event list"
  scheduled :: nat

definition emit_um :: "event \<Rightarrow> update_manager \<Rightarrow> update_manager" where
  "emit_um e u = u\<lparr>emitted := emitted u @ [e]\<rparr>"

definition requestAnimationFrame :: "update_manager \<Rightarrow> update_manager" where
  "requestAnimationFrame u = u\<lparr>scheduled := scheduled u + 1\<rparr>"

text \<open>
  \<^verbatim>\<open>_start\<close> tests \<^verbatim>\<open>this.running\<close>. The class declares the field \<^verbatim>\<open>_running\<close> and the
  getter \<^verbatim>\<open>isRunning\<close> and no property \<^verbatim>\<open>running\<close>, and reading a property that an
  object does not have yields \<^verbatim>\<open>undefined\<close>.
\<close>

definition prop_running :: "update_manager \<Rightarrow> jsval" where
  "prop_running u = Undefined"

definition isRunning :: "update_manager \<Rightarrow> jsval" where
  "isRunning u = Boolean (um_running u)"

text \<open>\<^verbatim>\<open>UpdateManager._start\<close>; \<open>now\<close> is the value of \<^verbatim>\<open>performance.now()\<close>.\<close>

definition start :: "real \<Rightarrow> update_manager \<Rightarrow> update_manager" where
  "start now u =
     (if truthy (prop_running u) then u
      else
        let u1 = emit_um (WillStart (um_initTime u)) u;
            u2 = u1\<lparr>um_running := True, um_startTime := now, um_elapsedTime := 0\<rparr>;
            u3 = requestAnimationFrame u2
        in emit_um (DidStart (um_initTime u3) (um_startTime u3)) u3)"

text \<open>\<^verbatim>\<open>UpdateManager._stop\<close>.\<close>

definition stop :: "update_manager \<Rightarrow> update_manager" where
  "stop u = (emit_um WillStop u)\<lparr>um_running := False\<rparr>"

text \<open>\<^verbatim>\<open>UpdateManager._update(delta)\<close>.\<close>

definition update :: "real \<Rightarrow> update_manager \<Rightarrow> update_manager" where
  "update delta u =
     (let u1 = emit_um (WillUpdate (um_frameCount u) (um_frameDelta u) (um_startTime u)
                          (um_elapsedTime u)) u;
          u2 = u1\<lparr>um_frameCount := um_frameCount u1 + 1,
                  um_elapsedTime := um_elapsedTime u1 + (delta - um_startTime u1),
                  um_frameDelta := delta - um_lastDelta u1,
                  um_lastDelta := delta\<rparr>;
          u3 = emit_um (DidUpdate (um_frameCount u2) (um_frameDelta u2) (um_startTime u2)
                          (um_elapsedTime u2)) u2
      in if um_running u3 then requestAnimationFrame u3
         else emit_um (DidStop (um_frameCount u3)) u3)"

text \<open>
  The host runs one scheduled callback with the time stamp of the frame; with no
  callback scheduled there is no tick.
\<close>

definition frame :: "real \<Rightarrow> update_manager \<Rightarrow> update_manager option" where
  "frame delta u =
     (if scheduled u = 0 then None
      else Some (update delta (u\<lparr>scheduled := scheduled u - 1\<rparr>)))"

fun frames :: "real list \<Rightarrow> update_manager \<Rightarrow> update_manager option" where
  "frames [] u = Some u"
| "frames (d # ds) u = (case frame d u of None \<Rightarrow> None | Some u' \<Rightarrow> frames ds u')"

text \<open>The name of an event and the frame count of its payload, when it carries one.\<close>

fun summary :: "event \<Rightarrow> string \<times> nat option" where
  "summary (DidDestroy r) = (''didDestroy'', None)"
| "summary (WillStart i) = (''willStart'', None)"
| "summary (DidStart i s) = (''didStart'', None)"
| "summary WillStop = (''willStop'', None)"
| "summary (DidStop n) = (''didStop'', Some n)"
| "summary (WillUpdate n fd st et) = (''willUpdate'', Some n)"
| "summary (DidUpdate n fd st et) = (''didUpdate'', Some n)"

text \<open>The events of the ticks \<open>k = 0, ..., n - 1\<close> that start at frame count \<open>f\<close>.\<close>

definition ticks :: "nat \<Rightarrow> nat \<Rightarrow> (string \<times> nat option) list" where
  "ticks f n =
     concat (map (\<lambda>k. [(''willUpdate'', Some (f + k)), (''didUpdate'', Some (f + k + 1))])
               [0..<n])"

text \<open>
  The update manager of a new game: the field initialisers of the class, and the
  constructor storing \<^verbatim>\<open>performance.now()\<close> in \<^verbatim>\<open>_initTime\<close>. Nothing has been emitted
  and no callback is scheduled.
\<close>

definition new_update_manager :: "real \<Rightarrow> update_manager" where
  "new_update_manager now =
     \<lparr>um_running = False, um_frameRate = 60, um_frameCount = 0, um_frameDelta = 0,
      um_lastDelta = 0, um_startTime = 0, um_elapsedTime = 0, um_initTime = now,
      emitted = [], scheduled = 0\<rparr>"

section \<open>Example objects\<close>

text \<open>
  An object literal, and freshly constructed objects of the engine's classes before
  their registration: a Base object, a Viewport, a Stage and a Container.
\<close>

definition plain_object :: obj where
  "plain_object =
     \<lparr>isBase = False, isEntity = False, isViewport = False, isStage = False,
      obj_id = None, stage = None, parent = None, position_x = 0, position_y = 0,
      alpha = 1, scale = 1, derived_x = 0, derived_y = 0, derived_alpha = 1,
      derived_scale = 1, children = []\<rparr>"

definition base_object :: obj where
  "base_object = plain_object\<lparr>isBase := True\<rparr>"

definition viewport_object :: obj where
  "viewport_object = plain_object\<lparr>isBase := True, isViewport := True\<rparr>"

definition stage_object :: obj where
  "stage_object = plain_object\<lparr>isBase := True, isEntity := True, isStage := True\<rparr>"

definition container_object :: obj where
  "container_object = plain_object\<lparr>isBase := True, isEntity := True\<rparr>"

text \<open>
  A game with a stage (reference 0), a viewport bound to it (1) and a Base object (2),
  all registered, the stage and the viewport being the ones the setup manager refers
  to; reference 3 is an object literal that carries the \<^verbatim>\<open>_id\<close> of the viewport.
\<close>

definition demo_heap :: "ref \<Rightarrow> obj" where
  "demo_heap =
     (\<lambda>r. plain_object)
       (0 := stage_object, 1 := viewport_object\<lparr>stage := Some 0\<rparr>, 2 := base_object,
        3 := plain_object\<lparr>obj_id := Some 1\<rparr>)"

definition demo_game :: game where
  "demo_game =
     (run [Add 0, Add 1, Add 2] (new_game demo_heap))
       \<lparr>setup_viewport := Some 1, setup_stage := Some 0\<rparr>"

text \<open>
  A scene: the container 0 at (10, 10) holds the container 1 at (5, 5) with opacity 0.5
  and scale 2, which holds the container 3 at (1, 1); the container 2 is empty and
  reference 4 is an object literal.
\<close>

definition scene_heap :: "ref \<Rightarrow> obj" where
  "scene_heap =
     (\<lambda>r. plain_object)
       (0 := container_object\<lparr>position_x := 10, position_y := 10, children := [1]\<rparr>,
        1 := container_object\<lparr>parent := Some 0, position_x := 5, position_y := 5,
               alpha := 1 / 2, scale := 2, children := [3]\<rparr>,
        2 := container_object,
        3 := container_object\<lparr>parent := Some 1, position_x := 1, position_y := 1\<rparr>)"

definition scene_game :: game where
  "scene_game = new_game scene_heap"

section \<open>Identifiers\<close>

lemma add_rejected:
  "\<not> accepted object g \<Longrightarrow> om_index (snd (add object g)) = om_index g"
  by (auto simp: add_def accepted_def warn_def)

lemma add_accepted:
  "accepted object g \<Longrightarrow>
     om_index (snd (add object g)) = om_index g + 1 \<and>
     obj_id (heap (snd (add object g)) object) = Some (om_index g) \<and>
     om_store (snd (add object g)) = om_store g @ [object]"
  by (auto simp: add_def accepted_def Let_def)

lemma destroy_index: "om_index (snd (destroy object g)) = om_index g"
  by (simp add: destroy_def destroy_viewport_def destroy_stage_def emit_def Let_def)

lemma assigned_lower_bound: "i \<in> set (assigned cs g) \<Longrightarrow> om_index g \<le> i"
proof (induction cs arbitrary: g)
  case Nil
  then show ?case by simp
next
  case (Cons c cs)
  show ?case
  proof (cases c)
    case (Add r)
    show ?thesis
    proof (cases "accepted r g")
      case True
      with Cons.prems Add add_accepted [OF True]
      have "i = om_index g \<or> i \<in> set (assigned cs (snd (add r g)))"
        by (auto simp: Let_def)
      then show ?thesis
        using Cons.IH [of "snd (add r g)"] add_accepted [OF True] by auto
    next
      case False
      with Cons.prems Add have "i \<in> set (assigned cs (snd (add r g)))"
        by (auto simp: Let_def split: option.splits)
      then show ?thesis
        using Cons.IH [of "snd (add r g)"] add_rejected [OF False] by simp
    qed
  next
    case (Destroy r)
    with Cons.prems have "i \<in> set (assigned cs (snd (destroy r g)))" by simp
    then show ?thesis
      using Cons.IH [of "snd (destroy r g)"] destroy_index [of r g] by simp
  qed
qed

lemma assigned_increasing: "sorted_wrt (<) (assigned cs g)"
proof (induction cs arbitrary: g)
  case Nil
  show ?case by simp
next
  case (Cons c cs)
  show ?case
  proof (cases c)
    case (Add r)
    show ?thesis
    proof (cases "accepted r g")
      case True
      have "\<forall>j\<in>set (assigned cs (snd (add r g))). om_index g < j"
        using assigned_lower_bound [of _ cs "snd (add r g)"] add_accepted [OF True]
        by fastforce
      with Add True add_accepted [OF True] Cons.IH [of "snd (add r g)"]
      show ?thesis by (simp add: Let_def)
    next
      case False
      with Add Cons.IH [of "snd (add r g)"] show ?thesis
        by (simp add: Let_def split: option.splits)
    qed
  next
    case (Destroy r)
    with Cons.IH [of "snd (destroy r g)"] show ?thesis by simp
  qed
qed

lemma add_heap_other: "r \<noteq> object \<Longrightarrow> heap (snd (add object g)) r = heap g r"
  by (simp add: add_def warn_def Let_def)

lemma add_isBase: "isBase (heap (snd (add object g)) r) = isBase (heap g r)"
  by (simp add: add_def warn_def Let_def)

lemma run_adds_heap_other:
  "r \<notin> set rs \<Longrightarrow> heap (run (map Add rs) g) r = heap g r"
  by (induction rs arbitrary: g) (auto simp: add_heap_other)

lemma adds_fresh:
  assumes "distinct rs" and "\<forall>r\<in>set rs. accepted r g"
  shows "assigned (map Add rs) g = [om_index g ..< om_index g + length rs] \<and>
         map (\<lambda>r. obj_id (heap (run (map Add rs) g) r)) rs =
           map Some [om_index g ..< om_index g + length rs]"
  using assms
proof (induction rs arbitrary: g)
  case Nil
  show ?case by simp
next
  case (Cons r rs)
  let ?g = "snd (add r g)"
  have acc: "accepted r g" using Cons.prems by simp
  note a = add_accepted [OF acc]
  have rest: "\<forall>q\<in>set rs. accepted q ?g"
    using Cons.prems a by (auto simp: accepted_def add_isBase)
  have d: "distinct rs" and nr: "r \<notin> set rs" using Cons.prems by auto
  note IH = Cons.IH [OF d rest]
  have keep: "obj_id (heap (run (map Add rs) ?g) r) = Some (om_index g)"
    using run_adds_heap_other [OF nr, of ?g] a by simp
  have up: "[om_index g ..< om_index g + length (r # rs)] =
            om_index g # [om_index ?g ..< om_index ?g + length rs]"
    using a by (simp add: upt_rec)
  show ?case
    unfolding up using IH acc a keep by (simp add: Let_def)
qed

text \<open>
  C3. Whatever calls are made on a game instance, registrations and destructions mixed,
  the ids that the accepted registrations hand out are strictly increasing in call
  order, hence pairwise different: no id is handed out twice. Registering distinct
  objects that inherit from Base and are not in the store accepts every one of them and
  gives them the consecutive ids from the current counter on, which they carry
  afterwards.
\<close>

theorem add_ids_unique_increasing:
  "sorted_wrt (<) (assigned cs g) \<and> distinct (assigned cs g) \<and>
   (distinct rs \<and> (\<forall>r\<in>set rs. isBase (heap g r) \<and> r \<notin> set (om_store g)) \<longrightarrow>
      assigned (map Add rs) g = [om_index g ..< om_index g + length rs] \<and>
      map (\<lambda>r. obj_id (heap (run (map Add rs) g) r)) rs =
        map Some [om_index g ..< om_index g + length rs])"
proof -
  have inc: "sorted_wrt (<) (assigned cs g)" by (rule assigned_increasing)
  then have "distinct (assigned cs g)" by (simp add: strict_sorted_iff)
  with inc adds_fresh [of rs g] show ?thesis by (simp add: accepted_def)
qed

lemmas demo = demo_game_def demo_heap_def new_game_def add_def destroy_def destroy_viewport_def
  destroy_stage_def keeps_def unbind_def setStage_def emit_def warn_def accepted_def get_def
  plain_object_def base_object_def viewport_object_def stage_object_def container_object_def
  Let_def

theorem add_ids_unique_increasing_witness:
  "distinct [0, 1, 2 :: nat] \<and>
   list_all (\<lambda>r. isBase (heap (new_game demo_heap) r) \<and> r \<notin> set (om_store (new_game demo_heap)))
     [0, 1, 2] \<and>
   assigned (map Add [0, 1, 2]) (new_game demo_heap) = [0, 1, 2] \<and>
   map (\<lambda>r. obj_id (heap (run (map Add [0, 1, 2]) (new_game demo_heap)) r)) [0, 1, 2] =
     [Some 0, Some 1, Some 2] \<and>
   assigned [Add 0, Destroy 0, Add 0, Add 1, Add 1, Add 3] (new_game demo_heap) = [0, 1, 2] \<and>
   sorted_wrt (<) (assigned [Add 0, Destroy 0, Add 0, Add 1, Add 1, Add 3] (new_game demo_heap))"
  using add_ids_unique_increasing [of "[Add 0, Destroy 0, Add 0, Add 1, Add 1, Add 3]"
      "new_game demo_heap" "[0, 1, 2]"]
  by (simp add: demo)

section \<open>Destruction\<close>



lemma fold_unbind:
  "fold (unbind x) vs h r =
     (if r \<in> set vs \<and> stage (h r) = Some x then (h r)\<lparr>stage := None\<rparr> else h r)"
  by (induction vs arbitrary: h) (auto simp: unbind_def setStage_def)

lemma fold_unbind_id: "obj_id (fold (unbind x) vs h r) = obj_id (h r)"
  by (simp add: fold_unbind)

lemma fold_unbind_flags:
  "isViewport (fold (unbind x) vs h r) = isViewport (h r)"
  "isStage (fold (unbind x) vs h r) = isStage (h r)"
  by (simp_all add: fold_unbind)

lemma fold_unbind_noop:
  "\<forall>v\<in>set vs. stage (h v) \<noteq> Some x \<Longrightarrow> fold (unbind x) vs h = h"
  by (rule ext) (auto simp: fold_unbind)

lemma keeps_ids:
  "(\<And>r. obj_id (heap g' r) = obj_id (heap g r)) \<Longrightarrow> keeps x g' = keeps x g"
  by (rule ext) (simp add: keeps_def)

lemma keeps_update:
  "keeps x (g\<lparr>om_store := a\<rparr>) = keeps x g"
  "keeps x (g\<lparr>om_viewports := b\<rparr>) = keeps x g"
  "keeps x (g\<lparr>setup_viewport := c\<rparr>) = keeps x g"
  by (rule ext, simp add: keeps_def)+

lemma destroy_fst: "fst (destroy x g) = x"
  by (simp add: destroy_def Let_def)

lemma destroy_events: "events (snd (destroy x g)) = events g @ [DidDestroy x]"
  by (simp add: destroy_def destroy_viewport_def destroy_stage_def emit_def Let_def)

lemma destroy_warnings: "warnings (snd (destroy x g)) = warnings g"
  by (simp add: destroy_def destroy_viewport_def destroy_stage_def emit_def Let_def)

lemma destroy_store: "om_store (snd (destroy x g)) = filter (keeps x g) (om_store g)"
  by (simp add: destroy_def destroy_viewport_def destroy_stage_def emit_def Let_def)

lemma destroy_viewports:
  "om_viewports (snd (destroy x g)) =
     (if isViewport (heap g x) then filter (keeps x g) (om_viewports g) else om_viewports g)"
  by (simp add: destroy_def destroy_viewport_def destroy_stage_def emit_def Let_def keeps_update)

lemma destroy_stages:
  "om_stages (snd (destroy x g)) =
     (if isStage (heap g x) then filter (keeps x g) (om_stages g) else om_stages g)"
  by (simp add: destroy_def destroy_viewport_def destroy_stage_def emit_def Let_def keeps_update)

lemma destroy_setup_viewport:
  "setup_viewport (snd (destroy x g)) =
     (if isViewport (heap g x) \<and> setup_viewport g = Some x then None else setup_viewport g)"
  by (simp add: destroy_def destroy_viewport_def destroy_stage_def emit_def Let_def)

lemma destroy_setup_stage:
  "setup_stage (snd (destroy x g)) =
     (if isStage (heap g x) \<and> setup_stage g = Some x then None else setup_stage g)"
  by (simp add: destroy_def destroy_viewport_def destroy_stage_def emit_def Let_def)

lemma destroy_heap:
  "heap (snd (destroy x g)) =
     (if isStage (heap g x) then fold (unbind x) (om_viewports (snd (destroy x g))) (heap g)
      else heap g)"
  by (simp add: destroy_def destroy_viewport_def destroy_stage_def emit_def Let_def)

lemma destroy_obj_id: "obj_id (heap (snd (destroy x g)) r) = obj_id (heap g r)"
  by (simp add: destroy_heap fold_unbind_id)

lemma destroy_flags:
  "isViewport (heap (snd (destroy x g)) r) = isViewport (heap g r)"
  "isStage (heap (snd (destroy x g)) r) = isStage (heap g r)"
  by (simp_all add: destroy_heap fold_unbind_flags)

lemma keeps_destroy: "keeps x (snd (destroy x g)) = keeps x g"
  by (rule keeps_ids) (rule destroy_obj_id)

lemma destroy_unbound:
  "isStage (heap g x) \<Longrightarrow> v \<in> set (om_viewports (snd (destroy x g))) \<Longrightarrow>
     stage (heap (snd (destroy x g)) v) \<noteq> Some x"
  by (subst destroy_heap) (simp add: fold_unbind)

lemma destroy_twice_snd:
  "snd (destroy x (snd (destroy x g))) = emit (DidDestroy x) (snd (destroy x g))"
proof (rule game.equality)
  let ?g = "snd (destroy x g)"
  show "heap (snd (destroy x ?g)) = heap (emit (DidDestroy x) ?g)"
  proof (cases "isStage (heap g x)")
    case True
    have "om_viewports (snd (destroy x ?g)) = om_viewports ?g"
      by (simp add: destroy_viewports [of x ?g] keeps_destroy destroy_flags destroy_viewports [of x g])
    moreover have "\<forall>v\<in>set (om_viewports ?g). stage (heap ?g v) \<noteq> Some x"
      using destroy_unbound [OF True] by blast
    ultimately show ?thesis
      using True by (simp add: destroy_heap [of x ?g] destroy_flags fold_unbind_noop emit_def)
  next
    case False
    then show ?thesis by (simp add: destroy_heap [of x ?g] destroy_flags emit_def)
  qed
qed (simp_all add: destroy_store destroy_viewports destroy_stages destroy_setup_viewport
       destroy_setup_stage destroy_events destroy_warnings destroy_index keeps_destroy
       destroy_flags emit_def)


text \<open>Listed objects keep pairwise different ids below the counter.\<close>

lemma add_listed: "listed (snd (add x g)) \<subseteq> insert x (listed g)"
  by (auto simp: add_def warn_def listed_def Let_def)

lemma add_obj_id:
  "obj_id (heap (snd (add x g)) r) =
     (if r = x \<and> accepted x g then Some (om_index g) else obj_id (heap g r))"
  by (simp add: add_def warn_def accepted_def Let_def)

lemma add_index:
  "om_index (snd (add x g)) = (if accepted x g then om_index g + 1 else om_index g)"
  using add_accepted [of x g] add_rejected [of x g] by simp

lemma add_rejected_listed: "\<not> accepted x g \<Longrightarrow> listed (snd (add x g)) = listed g"
  by (auto simp: add_def warn_def listed_def accepted_def)

lemma unique_ids_add:
  assumes "unique_ids g"
  shows "unique_ids (snd (add x g))"
proof (cases "accepted x g")
  case False
  with assms show ?thesis
    by (simp add: unique_ids_def add_rejected_listed add_obj_id add_index)
next
  case True
  from assms have below: "\<And>r. r \<in> listed g \<Longrightarrow> \<exists>i. obj_id (heap g r) = Some i \<and> i < om_index g"
    and uniq: "\<And>r q. r \<in> listed g \<Longrightarrow> q \<in> listed g \<Longrightarrow>
                 obj_id (heap g r) = obj_id (heap g q) \<Longrightarrow> r = q"
    unfolding unique_ids_def by blast+
  have old: "r \<in> listed g" if "r \<in> listed (snd (add x g))" and "r \<noteq> x" for r
    using that add_listed [of x g] by auto
  show ?thesis
    unfolding unique_ids_def add_obj_id add_index
  proof (intro conjI ballI impI)
    fix r assume "r \<in> listed (snd (add x g))"
    then show "\<exists>i. (if r = x \<and> accepted x g then Some (om_index g) else obj_id (heap g r)) = Some i \<and>
                 i < (if accepted x g then om_index g + 1 else om_index g)"
      using True below [OF old, of r] by (cases "r = x") auto
  next
    fix r q
    assume r: "r \<in> listed (snd (add x g))" and q: "q \<in> listed (snd (add x g))"
      and eq: "(if r = x \<and> accepted x g then Some (om_index g) else obj_id (heap g r)) =
               (if q = x \<and> accepted x g then Some (om_index g) else obj_id (heap g q))"
    show "r = q"
    proof (cases "r = x"; cases "q = x")
      assume "r = x" "q = x" then show ?thesis by simp
    next
      assume "r = x" "q \<noteq> x"
      with eq True below [OF old [OF q]] show ?thesis by auto
    next
      assume "r \<noteq> x" "q = x"
      with eq True below [OF old [OF r]] show ?thesis by auto
    next
      assume "r \<noteq> x" "q \<noteq> x"
      with eq uniq [OF old [OF r] old [OF q]] show ?thesis by simp
    qed
  qed
qed

lemma destroy_listed: "listed (snd (destroy x g)) \<subseteq> listed g"
  by (auto simp: listed_def destroy_store destroy_viewports destroy_stages)

lemma unique_ids_destroy:
  assumes "unique_ids g"
  shows "unique_ids (snd (destroy x g))"
  using assms destroy_listed [of x g]
  unfolding unique_ids_def destroy_obj_id destroy_index
  by blast

lemma unique_ids_run: "unique_ids g \<Longrightarrow> unique_ids (run cs g)"
proof (induction cs arbitrary: g)
  case Nil
  then show ?case by simp
next
  case (Cons c cs)
  show ?case
  proof (cases c)
    case (Add x)
    from Cons.IH [OF unique_ids_add [OF Cons.prems, of x]] Add show ?thesis by simp
  next
    case (Destroy x)
    from Cons.IH [OF unique_ids_destroy [OF Cons.prems, of x]] Destroy show ?thesis by simp
  qed
qed

lemma unique_ids_new_game: "unique_ids (run cs (new_game h))"
  by (rule unique_ids_run) (simp add: unique_ids_def listed_def new_game_def)






text \<open>
  C8. A second \<^verbatim>\<open>_destroy(x)\<close> right after the first returns \<open>x\<close> and leaves the store,
  the Viewport and Stage subsets, both setup slots, the heap (so every binding) and the
  warnings as the first call left them; its one effect is a further \<^verbatim>\<open>didDestroy\<close>
  event that carries \<open>x\<close>.
\<close>

theorem destroy_twice:
  "destroy x (snd (destroy x g)) =
     (x, (snd (destroy x g))\<lparr>events := events (snd (destroy x g)) @ [DidDestroy x]\<rparr>)"
  using destroy_twice_snd [of x g] destroy_fst [of x "snd (destroy x g)"]
  by (simp add: prod_eq_iff emit_def)

text \<open>
  The second call is observable: destroying the registered viewport 1 twice emits
  \<^verbatim>\<open>didDestroy\<close> twice.
\<close>

theorem destroy_twice_counterexample:
  "1 \<notin> set (om_store (snd (destroy 1 demo_game))) \<and>
   events (snd (destroy 1 demo_game)) = [DidDestroy 1] \<and>
   events (snd (destroy 1 (snd (destroy 1 demo_game)))) = [DidDestroy 1, DidDestroy 1]"
  by (simp add: demo)

lemma keeps_eq: "keeps x g = (\<lambda>item. obj_id (heap g item) \<noteq> obj_id (heap g x))"
  by (rule ext) (auto simp: keeps_def)

text \<open>
  C10. \<^verbatim>\<open>_destroy(x)\<close> keeps in the store exactly the objects whose \<^verbatim>\<open>_id\<close> differs from
  the \<^verbatim>\<open>_id\<close> of \<open>x\<close>; it filters the Viewport subset in the same way when \<open>x\<close> is itself
  a Viewport, and the Stage subset when \<open>x\<close> is itself a Stage, and leaves a subset alone
  otherwise. So any object \<open>r\<close> that carries the \<^verbatim>\<open>_id\<close> of \<open>x\<close> leaves the store. When
  \<open>x\<close> has no \<^verbatim>\<open>_id\<close> and every object of the store has one, the store is unchanged.
  In every case one \<^verbatim>\<open>didDestroy\<close> event that carries \<open>x\<close> is emitted and \<open>x\<close> is
  returned.
\<close>

theorem destroy_by_id:
  "om_store (snd (destroy x g)) =
     filter (\<lambda>item. obj_id (heap g item) \<noteq> obj_id (heap g x)) (om_store g) \<and>
   om_viewports (snd (destroy x g)) =
     (if isViewport (heap g x)
      then filter (\<lambda>item. obj_id (heap g item) \<noteq> obj_id (heap g x)) (om_viewports g)
      else om_viewports g) \<and>
   om_stages (snd (destroy x g)) =
     (if isStage (heap g x)
      then filter (\<lambda>item. obj_id (heap g item) \<noteq> obj_id (heap g x)) (om_stages g)
      else om_stages g) \<and>
   (obj_id (heap g r) = obj_id (heap g x) \<longrightarrow> r \<notin> set (om_store (snd (destroy x g)))) \<and>
   (obj_id (heap g x) = None \<and> (\<forall>r\<in>set (om_store g). obj_id (heap g r) \<noteq> None) \<longrightarrow>
      om_store (snd (destroy x g)) = om_store g) \<and>
   events (snd (destroy x g)) = events g @ [DidDestroy x] \<and>
   fst (destroy x g) = x"
proof -
  have "filter (\<lambda>item. obj_id (heap g item) \<noteq> obj_id (heap g x)) (om_store g) = om_store g"
    if "obj_id (heap g x) = None" and "\<forall>r\<in>set (om_store g). obj_id (heap g r) \<noteq> None"
    using that by (simp add: filter_id_conv)
  then show ?thesis
    by (simp add: destroy_store destroy_viewports destroy_stages destroy_events destroy_fst
          keeps_eq)
qed

theorem destroy_by_id_witness:
  "obj_id (heap demo_game 1) = obj_id (heap demo_game 3) \<and>
   om_store demo_game = [0, 1, 2] \<and>
   om_store (snd (destroy 3 demo_game)) = [0, 2] \<and>
   obj_id (heap demo_game 4) = None \<and>
   list_all (\<lambda>r. obj_id (heap demo_game r) \<noteq> None) (om_store demo_game) \<and>
   om_store (snd (destroy 4 demo_game)) = [0, 1, 2] \<and>
   events (snd (destroy 4 demo_game)) = [DidDestroy 4] \<and>
   fst (destroy 4 demo_game) = 4"
  using destroy_by_id [of 3 demo_game 1] destroy_by_id [of 4 demo_game 1]
  by (simp add: demo)

text \<open>
  An object literal that carries the \<^verbatim>\<open>_id\<close> of the registered viewport 1 removes the
  viewport from the store and leaves it in the Viewport subset.
\<close>

theorem destroy_by_id_counterexample:
  "obj_id (heap demo_game 1) = obj_id (heap demo_game 3) \<and>
   om_viewports demo_game = [1] \<and>
   om_store (snd (destroy 3 demo_game)) = [0, 2] \<and>
   om_viewports (snd (destroy 3 demo_game)) = [1]"
  by (simp add: demo)

text \<open>Every object of the store of a game built by calls from a new game has an id.\<close>

lemma store_ids_add:
  "\<forall>r\<in>set (om_store g). obj_id (heap g r) \<noteq> None \<Longrightarrow>
     \<forall>r\<in>set (om_store (snd (add x g))). obj_id (heap (snd (add x g)) r) \<noteq> None"
  by (auto simp: add_def warn_def Let_def)

lemma store_ids_destroy:
  "\<forall>r\<in>set (om_store g). obj_id (heap g r) \<noteq> None \<Longrightarrow>
     \<forall>r\<in>set (om_store (snd (destroy x g))). obj_id (heap (snd (destroy x g)) r) \<noteq> None"
  by (simp add: destroy_store destroy_obj_id)

lemma store_ids_run:
  "\<forall>r\<in>set (om_store g). obj_id (heap g r) \<noteq> None \<Longrightarrow>
     \<forall>r\<in>set (om_store (run cs g)). obj_id (heap (run cs g) r) \<noteq> None"
proof (induction cs arbitrary: g)
  case Nil
  then show ?case by simp
next
  case (Cons c cs)
  show ?case
  proof (cases c)
    case (Add x)
    from Cons.IH [OF store_ids_add [OF Cons.prems, of x]] Add show ?thesis by simp
  next
    case (Destroy x)
    from Cons.IH [OF store_ids_destroy [OF Cons.prems, of x]] Destroy show ?thesis by simp
  qed
qed

lemma store_ids_new_game:
  "\<forall>r\<in>set (om_store (run cs (new_game h))). obj_id (heap (run cs (new_game h)) r) \<noteq> None"
  by (rule store_ids_run) (simp add: new_game_def)

section \<open>Derived transforms\<close>

lemmas scene = scene_game_def scene_heap_def new_game_def plain_object_def container_object_def
  calculateDerived_def pass_def onAdd_def child_add_def child_remove_def warn_def Let_def

lemma calculateDerived_root:
  "(case parent (h e) of None \<Rightarrow> True | Some p \<Rightarrow> \<not> isEntity (h p)) \<Longrightarrow>
     derived_x (calculateDerived e h e) = position_x (h e) \<and>
     derived_y (calculateDerived e h e) = position_y (h e) \<and>
     derived_alpha (calculateDerived e h e) = alpha (h e) \<and>
     derived_scale (calculateDerived e h e) = scale (h e)"
  by (auto simp: calculateDerived_def Let_def split: option.splits)

lemma calculateDerived_child:
  "parent (h e) = Some p \<Longrightarrow> isEntity (h p) \<Longrightarrow> p \<noteq> e \<Longrightarrow>
     derived_x (calculateDerived e h e) = position_x (h e) + derived_x (h p) \<and>
     derived_y (calculateDerived e h e) = position_y (h e) + derived_y (h p) \<and>
     derived_alpha (calculateDerived e h e) = alpha (h e) * derived_alpha (h p) \<and>
     derived_scale (calculateDerived e h e) = scale (h e) * derived_scale (h p)"
  by (simp add: calculateDerived_def Let_def)

lemma calculateDerived_other: "r \<noteq> e \<Longrightarrow> calculateDerived e h r = h r"
  by (simp add: calculateDerived_def Let_def split: option.splits)

lemma calculateDerived_own:
  "parent (calculateDerived e h r) = parent (h r)"
  "isEntity (calculateDerived e h r) = isEntity (h r)"
  "position_x (calculateDerived e h r) = position_x (h r)"
  "position_y (calculateDerived e h r) = position_y (h r)"
  "alpha (calculateDerived e h r) = alpha (h r)"
  "scale (calculateDerived e h r) = scale (h r)"
  by (simp_all add: calculateDerived_def Let_def split: option.splits)

text \<open>
  C1. \<^verbatim>\<open>calculateDerived\<close> on an entity \<open>e\<close> whose parent is absent or not an Entity
  leaves in \<^verbatim>\<open>derived\<close> the entity's own position, opacity and scale. On an entity
  whose parent \<open>p\<close> is an Entity, and another object than \<open>e\<close>, it leaves the own
  position plus the parent's derived position, and the own opacity and scale times the
  parent's derived opacity and scale, as the parent's snapshot holds them at the call.
  For a root \<open>r\<close> at (10, 10) with opacity 1 and scale 1 and a child \<open>c\<close> at (5, 5)
  with opacity 0.5 and scale 2, the pass over the root and then the child leaves
  (15, 15), 0.5 and 2 in the child's snapshot.
\<close>

theorem calculateDerived_composes:
  "((case parent (h e) of None \<Rightarrow> True | Some q \<Rightarrow> \<not> isEntity (h q)) \<longrightarrow>
      derived_x (calculateDerived e h e) = position_x (h e) \<and>
      derived_y (calculateDerived e h e) = position_y (h e) \<and>
      derived_alpha (calculateDerived e h e) = alpha (h e) \<and>
      derived_scale (calculateDerived e h e) = scale (h e)) \<and>
   (parent (h e) = Some p \<and> isEntity (h p) \<and> p \<noteq> e \<longrightarrow>
      derived_x (calculateDerived e h e) = position_x (h e) + derived_x (h p) \<and>
      derived_y (calculateDerived e h e) = position_y (h e) + derived_y (h p) \<and>
      derived_alpha (calculateDerived e h e) = alpha (h e) * derived_alpha (h p) \<and>
      derived_scale (calculateDerived e h e) = scale (h e) * derived_scale (h p)) \<and>
   (parent (h r) = None \<and> position_x (h r) = 10 \<and> position_y (h r) = 10 \<and>
    alpha (h r) = 1 \<and> scale (h r) = 1 \<and> isEntity (h r) \<and>
    parent (h c) = Some r \<and> c \<noteq> r \<and> position_x (h c) = 5 \<and> position_y (h c) = 5 \<and>
    alpha (h c) = 1 / 2 \<and> scale (h c) = 2 \<longrightarrow>
      derived_x (pass [r, c] h c) = 15 \<and> derived_y (pass [r, c] h c) = 15 \<and>
      derived_alpha (pass [r, c] h c) = 1 / 2 \<and> derived_scale (pass [r, c] h c) = 2)"
proof -
  have example: "derived_x (pass [r, c] h c) = 15 \<and> derived_y (pass [r, c] h c) = 15 \<and>
      derived_alpha (pass [r, c] h c) = 1 / 2 \<and> derived_scale (pass [r, c] h c) = 2"
    if root: "parent (h r) = None" "position_x (h r) = 10" "position_y (h r) = 10"
        "alpha (h r) = 1" "scale (h r) = 1" "isEntity (h r)"
      and child: "parent (h c) = Some r" "c \<noteq> r" "position_x (h c) = 5"
        "position_y (h c) = 5" "alpha (h c) = 1 / 2" "scale (h c) = 2"
  proof -
    let ?h = "calculateDerived r h"
    have r: "derived_x (?h r) = 10 \<and> derived_y (?h r) = 10 \<and> derived_alpha (?h r) = 1 \<and>
        derived_scale (?h r) = 1"
      using calculateDerived_root [of h r] root by simp
    have "parent (?h c) = Some r" "isEntity (?h r)" "r \<noteq> c"
      using root child by (simp_all add: calculateDerived_own)
    from calculateDerived_child [OF this] r child show ?thesis
      by (simp add: pass_def calculateDerived_own)
  qed
  show ?thesis
    using calculateDerived_root [of h e] calculateDerived_child [of h e p] example
    by blast
qed

theorem calculateDerived_composes_witness:
  "parent (scene_heap 0) = None \<and> parent (scene_heap 1) = Some 0 \<and> isEntity (scene_heap 0) \<and>
   derived_x (calculateDerived 0 scene_heap 0) = 10 \<and>
   derived_y (calculateDerived 0 scene_heap 0) = 10 \<and>
   derived_alpha (calculateDerived 0 scene_heap 0) = 1 \<and>
   derived_scale (calculateDerived 0 scene_heap 0) = 1 \<and>
   derived_x (calculateDerived 1 (calculateDerived 0 scene_heap) 1) = 15 \<and>
   derived_x (pass [0, 1] scene_heap 1) = 15 \<and> derived_y (pass [0, 1] scene_heap 1) = 15 \<and>
   derived_alpha (pass [0, 1] scene_heap 1) = 1 / 2 \<and>
   derived_scale (pass [0, 1] scene_heap 1) = 2 \<and>
   derived_x (pass [0, 1, 3] scene_heap 3) = 16 \<and> derived_y (pass [0, 1, 3] scene_heap 3) = 16"
  using calculateDerived_composes [of scene_heap 0 0 0 1]
    calculateDerived_composes [of "calculateDerived 0 scene_heap" 1 0 0 1]
  by (simp add: scene)

text \<open>
  An entity that is its own parent reads the snapshot it has just overwritten: the
  position is doubled.
\<close>

lemma self_parent:
  "parent (h e) = Some e \<Longrightarrow> isEntity (h e) \<Longrightarrow>
   derived_x (calculateDerived e h e) = 2 * position_x (h e)"
  by (simp add: calculateDerived_def Let_def)

section \<open>Attaching and detaching\<close>



text \<open>
  C7. Registering an object that does not inherit from Base, or one that is in the store
  already, returns a falsy value and changes nothing but the log of warnings, which
  gains one entry: the store keeps its length and the object its \<^verbatim>\<open>_id\<close>. Attaching an
  object that is not an Entity has the hook and the attach answer \<^verbatim>\<open>false\<close> and
  likewise changes nothing but the log of warnings. No call has a failing path: every
  function of the model is total.
\<close>

theorem rejections_leave_state:
  "(\<not> isBase (heap g x) \<or> x \<in> set (om_store g) \<longrightarrow>
      \<not> truthy (fst (add x g)) \<and>
      (\<exists>w. snd (add x g) = g\<lparr>warnings := warnings g @ [w]\<rparr>) \<and>
      length (om_store (snd (add x g))) = length (om_store g) \<and>
      obj_id (heap (snd (add x g)) x) = obj_id (heap g x)) \<and>
   (\<not> isEntity (heap g x) \<longrightarrow>
      fst (onAdd c x g) = Boolean False \<and> \<not> truthy (fst (onAdd c x g)) \<and>
      (\<exists>w. snd (onAdd c x g) = g\<lparr>warnings := warnings g @ [w]\<rparr>) \<and>
      fst (child_add c x g) = Boolean False \<and> \<not> truthy (fst (child_add c x g)) \<and>
      (\<exists>w. snd (child_add c x g) = g\<lparr>warnings := warnings g @ [w]\<rparr>))"
  by (auto simp: add_def onAdd_def child_add_def warn_def)

theorem rejections_leave_state_witness:
  "\<not> isBase (heap demo_game 3) \<and> 0 \<in> set (om_store demo_game) \<and>
   \<not> isEntity (heap demo_game 3) \<and>
   add 3 demo_game =
     (Undefined, demo_game\<lparr>warnings :=
        [(''Objects under a game instance must inherit from the Base object class.'',
          ''Whirl.Game#ObjectManager'')]\<rparr>) \<and>
   add 0 demo_game =
     (Undefined, demo_game\<lparr>warnings :=
        [(''Object already exists in the global store. Rejecting attempt to add.'',
          ''Whirl.Game#ObjectManager'')]\<rparr>) \<and>
   length (om_store (snd (add 0 demo_game))) = 3 \<and>
   obj_id (heap (snd (add 0 demo_game)) 0) = Some 0 \<and>
   child_add 0 3 demo_game =
     (Boolean False, demo_game\<lparr>warnings :=
        [(''Objects added to a Container must inherit from the Entity class. Rejecting attempt to add object as child.'',
          ''Whirl.Container'')]\<rparr>)"
  using rejections_leave_state [of demo_game 3 0] rejections_leave_state [of demo_game 0 0]
  by (simp add: demo onAdd_def child_add_def)

lemma filter_out_absent: "e \<notin> set xs \<Longrightarrow> filter (\<lambda>x. x \<noteq> e) xs = xs"
  by (induction xs) auto

lemma child_remove_children:
  "children (child_remove c e h r) =
     (if r = c then filter (\<lambda>x. x \<noteq> e) (children (h c)) else children (h r))"
  by (simp add: child_remove_def Let_def filter_out_absent)

lemma child_remove_parent:
  "parent (child_remove c e h r) =
     (if r = e \<and> e \<in> set (children (h c)) then None else parent (h r))"
  by (simp add: child_remove_def Let_def)

lemma child_remove_consistent:
  assumes "consistent h"
  shows "consistent (child_remove c e h)"
proof -
  from assms have d: "\<And>a. distinct (children (h a))"
    and up: "\<And>a x. x \<in> set (children (h a)) \<Longrightarrow> parent (h x) = Some a"
    and down: "\<And>x p. parent (h x) = Some p \<Longrightarrow> x \<in> set (children (h p))"
    unfolding consistent_def by blast+
  show ?thesis
    unfolding consistent_def child_remove_children child_remove_parent
  proof (intro conjI allI impI)
    fix a show "distinct (if a = c then filter (\<lambda>x. x \<noteq> e) (children (h c)) else children (h a))"
      using d by simp
  next
    fix a x
    assume "x \<in> set (if a = c then filter (\<lambda>x. x \<noteq> e) (children (h c)) else children (h a))"
    then have x: "x \<in> set (children (h a))" and "a = c \<longrightarrow> x \<noteq> e"
      by (auto split: if_splits)
    then show "(if x = e \<and> e \<in> set (children (h c)) then None else parent (h x)) = Some a"
      using up [OF x] up [of e c] by auto
  next
    fix x p
    assume "(if x = e \<and> e \<in> set (children (h c)) then None else parent (h x)) = Some p"
    then have p: "parent (h x) = Some p" and ne: "\<not> (x = e \<and> e \<in> set (children (h c)))"
      by (auto split: if_splits)
    from down [OF p] have "x \<in> set (children (h p))" .
    with ne show "x \<in> set (if p = c then filter (\<lambda>x. x \<noteq> e) (children (h c)) else children (h p))"
      by auto
  qed
qed

text \<open>The heap once the hook has detached the child from its previous parent.\<close>

lemma child_add_rejects: "\<not> isEntity (heap g e) \<Longrightarrow> heap (snd (child_add b e g)) = heap g"
  by (simp add: child_add_def onAdd_def warn_def)

lemma child_add_accepts:
  assumes "isEntity (heap g e)"
    and "h1 = (case parent (heap g e) of Some p \<Rightarrow> child_remove p e (heap g) | None \<Rightarrow> heap g)"
  shows "children (heap (snd (child_add b e g)) r) =
           (if r = b then children (h1 b) @ [e] else children (h1 r))"
    and "parent (heap (snd (child_add b e g)) r) = (if r = e then Some b else parent (h1 r))"
  using assms by (simp_all add: child_add_def onAdd_def Let_def)

lemma attach_consistent:
  assumes c: "consistent h1" and free: "parent (h1 e) = None"
    and ch: "\<And>r. children (h3 r) = (if r = b then children (h1 b) @ [e] else children (h1 r))"
    and pa: "\<And>r. parent (h3 r) = (if r = e then Some b else parent (h1 r))"
  shows "consistent h3"
proof -
  from c have d: "\<And>a. distinct (children (h1 a))"
    and up: "\<And>a x. x \<in> set (children (h1 a)) \<Longrightarrow> parent (h1 x) = Some a"
    and down: "\<And>x p. parent (h1 x) = Some p \<Longrightarrow> x \<in> set (children (h1 p))"
    unfolding consistent_def by blast+
  have absent: "e \<notin> set (children (h1 a))" for a
    using up [of e a] free by auto
  show ?thesis
    unfolding consistent_def ch pa
  proof (intro conjI allI impI)
    fix a show "distinct (if a = b then children (h1 b) @ [e] else children (h1 a))"
      using d absent by simp
  next
    fix a x
    assume "x \<in> set (if a = b then children (h1 b) @ [e] else children (h1 a))"
    then consider "x = e" "a = b" | "x \<in> set (children (h1 a))"
      by (auto split: if_splits)
    then show "(if x = e then Some b else parent (h1 x)) = Some a"
    proof cases
      case 1
      then show ?thesis by simp
    next
      case 2
      with absent have "x \<noteq> e" by auto
      with up [OF 2] show ?thesis by simp
    qed
  next
    fix x p
    assume *: "(if x = e then Some b else parent (h1 x)) = Some p"
    show "x \<in> set (if p = b then children (h1 b) @ [e] else children (h1 p))"
    proof (cases "x = e")
      case True
      with * show ?thesis by simp
    next
      case False
      with * have "parent (h1 x) = Some p" by simp
      from down [OF this] show ?thesis by auto
    qed
  qed
qed

lemma child_add_consistent:
  assumes "consistent (heap g)"
  shows "consistent (heap (snd (child_add b e g)))"
proof (cases "isEntity (heap g e)")
  case False
  with assms show ?thesis by (simp add: child_add_rejects)
next
  case True
  define h1 where
    "h1 = (case parent (heap g e) of Some p \<Rightarrow> child_remove p e (heap g) | None \<Rightarrow> heap g)"
  have c1: "consistent h1"
    using assms child_remove_consistent [OF assms]
    by (simp add: h1_def split: option.splits)
  have "parent (h1 e) = None"
  proof (cases "parent (heap g e)")
    case None
    then show ?thesis by (simp add: h1_def)
  next
    case (Some p)
    with assms have "e \<in> set (children (heap g p))" unfolding consistent_def by blast
    with Some show ?thesis by (simp add: h1_def child_remove_parent)
  qed
  with c1 show ?thesis
    by (rule attach_consistent) (simp_all add: child_add_accepts [OF True h1_def])
qed

text \<open>The scene is in agreement.\<close>

lemma consistent_scene: "consistent scene_heap"
  by (auto simp: consistent_def scene split: if_splits)

text \<open>
  C9. Child lists and back-references stay in agreement over every sequence of attach
  and detach calls: no list holds an entity twice, an entity in a list names the holder
  as its parent, and an entity with a parent is in its parent's list, so no entity is
  held by two containers. Nothing is said about cycles: see the counterexample.
\<close>

theorem attach_detach_consistent:
  "consistent (heap g) \<Longrightarrow> consistent (heap (run_tree cs g))"
proof (induction cs arbitrary: g)
  case Nil
  then show ?case by simp
next
  case (Cons c cs)
  show ?case
  proof (cases c)
    case (Attach b e)
    with Cons.IH [OF child_add_consistent [OF Cons.prems, of b e]] show ?thesis by simp
  next
    case (Detach b e)
    have "consistent (heap (g\<lparr>heap := child_remove b e (heap g)\<rparr>))"
      using child_remove_consistent [OF Cons.prems] by simp
    from Cons.IH [OF this] Detach show ?thesis by simp
  qed
qed

theorem attach_detach_consistent_witness:
  "consistent (heap scene_game) \<and>
   consistent (heap (run_tree [Attach 2 1, Detach 1 3, Attach 1 0, Attach 0 4] scene_game)) \<and>
   children (heap (run_tree [Attach 2 1, Detach 1 3, Attach 1 0, Attach 0 4] scene_game) 0) = [] \<and>
   children (heap (run_tree [Attach 2 1, Detach 1 3, Attach 1 0, Attach 0 4] scene_game) 1) = [0] \<and>
   children (heap (run_tree [Attach 2 1, Detach 1 3, Attach 1 0, Attach 0 4] scene_game) 2) = [1] \<and>
   parent (heap (run_tree [Attach 2 1, Detach 1 3, Attach 1 0, Attach 0 4] scene_game) 0) = Some 1 \<and>
   parent (heap (run_tree [Attach 2 1, Detach 1 3, Attach 1 0, Attach 0 4] scene_game) 1) = Some 2 \<and>
   parent (heap (run_tree [Attach 2 1, Detach 1 3, Attach 1 0, Attach 0 4] scene_game) 3) = None"
proof -
  have c: "consistent (heap scene_game)"
    using consistent_scene by (simp add: scene_game_def new_game_def)
  from attach_detach_consistent [OF c, of "[Attach 2 1, Detach 1 3, Attach 1 0, Attach 0 4]"] c
  show ?thesis by (simp add: scene)
qed

text \<open>
  Attaching a container under its own descendant is accepted: in the scene, container 1
  is a child of container 0, attaching 0 to 1 succeeds and makes 0 its own ancestor two
  steps up; attaching container 2 to itself makes it its own parent.
\<close>

theorem attach_cycle_counterexample:
  "consistent (heap scene_game) \<and>
   ancestor 1 (heap scene_game) 1 = Some 0 \<and>
   fst (child_add 1 0 scene_game) = Boolean True \<and>
   parent (heap (snd (child_add 1 0 scene_game)) 0) = Some 1 \<and>
   children (heap (snd (child_add 1 0 scene_game)) 1) = [3, 0] \<and>
   ancestor 2 (heap (snd (child_add 1 0 scene_game))) 0 = Some 0 \<and>
   fst (child_add 2 2 scene_game) = Boolean True \<and>
   ancestor 1 (heap (snd (child_add 2 2 scene_game))) 2 = Some 2"
  using consistent_scene
  by (simp add: scene numeral_2_eq_2)

section \<open>Update scheduler\<close>

lemma start_effect:
  "emitted (start now u) = emitted u @ [WillStart (um_initTime u), DidStart (um_initTime u) now]"
  "scheduled (start now u) = scheduled u + 1"
  "um_running (start now u)"
  "um_startTime (start now u) = now"
  "um_elapsedTime (start now u) = 0"
  "um_frameCount (start now u) = um_frameCount u"
  by (simp_all add: start_def prop_running_def emit_um_def requestAnimationFrame_def Let_def)

lemma stop_effect:
  "emitted (stop u) = emitted u @ [WillStop]"
  "scheduled (stop u) = scheduled u"
  "\<not> um_running (stop u)"
  "um_frameCount (stop u) = um_frameCount u"
  by (simp_all add: stop_def emit_um_def)

lemma update_effect:
  "um_frameCount (update d u) = um_frameCount u + 1"
  "um_running (update d u) = um_running u"
  "scheduled (update d u) = (if um_running u then scheduled u + 1 else scheduled u)"
  "map summary (emitted (update d u)) =
     map summary (emitted u) @
     [(''willUpdate'', Some (um_frameCount u)), (''didUpdate'', Some (um_frameCount u + 1))] @
     (if um_running u then [] else [(''didStop'', Some (um_frameCount u + 1))])"
  "\<exists>new. emitted (update d u) = emitted u @ new"
  by (simp_all add: update_def emit_um_def requestAnimationFrame_def Let_def)

lemma frame_effect:
  assumes "0 < scheduled u"
  shows "\<exists>u'. frame d u = Some u' \<and>
     um_frameCount u' = um_frameCount u + 1 \<and>
     um_running u' = um_running u \<and>
     scheduled u' = (if um_running u then scheduled u else scheduled u - 1) \<and>
     (\<exists>new. emitted u' = emitted u @ new \<and>
        map summary new =
          [(''willUpdate'', Some (um_frameCount u)), (''didUpdate'', Some (um_frameCount u + 1))] @
          (if um_running u then [] else [(''didStop'', Some (um_frameCount u + 1))]))"
  using assms
  by (simp add: frame_def update_def emit_um_def requestAnimationFrame_def Let_def)

lemma ticks_Suc:
  "ticks f (Suc n) =
     [(''willUpdate'', Some f), (''didUpdate'', Some (f + 1))] @ ticks (f + 1) n"
proof -
  have "[0..<Suc n] = 0 # map Suc [0..<n]"
    by (simp add: upt_conv_Cons map_Suc_upt del: upt_Suc)
  then show ?thesis
    by (simp add: ticks_def comp_def del: upt_Suc)
qed

lemma frames_running:
  assumes "um_running u" and "scheduled u = 1"
  shows "\<exists>u'. frames ds u = Some u' \<and> um_running u' \<and> scheduled u' = 1 \<and>
     um_frameCount u' = um_frameCount u + length ds \<and>
     (\<exists>new. emitted u' = emitted u @ new \<and> map summary new = ticks (um_frameCount u) (length ds))"
  using assms
proof (induction ds arbitrary: u)
  case Nil
  then show ?case by (simp add: ticks_def)
next
  case (Cons d ds)
  from frame_effect [of u d] Cons.prems obtain u1 new1 where
    u1: "frame d u = Some u1" "um_frameCount u1 = um_frameCount u + 1" "um_running u1"
      "scheduled u1 = 1" "emitted u1 = emitted u @ new1"
      "map summary new1 =
         [(''willUpdate'', Some (um_frameCount u)), (''didUpdate'', Some (um_frameCount u + 1))]"
    by auto
  from Cons.IH [OF u1(3,4)] obtain u' new where
    u': "frames ds u1 = Some u'" "um_running u'" "scheduled u' = 1"
      "um_frameCount u' = um_frameCount u1 + length ds" "emitted u' = emitted u1 @ new"
      "map summary new = ticks (um_frameCount u1) (length ds)"
    by auto
  have "emitted u' = emitted u @ (new1 @ new)" using u1 u' by simp
  moreover have "map summary (new1 @ new) = ticks (um_frameCount u) (length (d # ds))"
    using u1 u' by (simp add: ticks_Suc)
  ultimately show ?case using u1 u' by auto
qed

text \<open>
  C5. One cycle of a scheduler with no callback pending. \<^verbatim>\<open>_start\<close>, then the ticks
  with the time stamps \<open>ds\<close>, then \<^verbatim>\<open>_stop\<close>: every tick runs, and after them the frame
  count has grown by their number. Exactly one more tick runs after \<^verbatim>\<open>_stop\<close>, and then
  none: no callback is scheduled. The events of the cycle are, in order, one
  \<^verbatim>\<open>willStart\<close>, one \<^verbatim>\<open>didStart\<close>, for each tick one \<^verbatim>\<open>willUpdate\<close> with the frame
  count before it and one \<^verbatim>\<open>didUpdate\<close> with that count plus one, then \<^verbatim>\<open>willStop\<close>, the
  events of the last tick, and one \<^verbatim>\<open>didStop\<close> with the final frame count.
\<close>

theorem scheduler_cycle:
  assumes "scheduled u = 0"
  shows "\<exists>u2 u4 new.
     frames ds (start now u) = Some u2 \<and>
     um_frameCount u2 = um_frameCount u + length ds \<and>
     frame d (stop u2) = Some u4 \<and>
     um_frameCount u4 = um_frameCount u + length ds + 1 \<and>
     frame d' u4 = None \<and>
     emitted u4 = emitted u @ new \<and>
     map summary new =
       [(''willStart'', None), (''didStart'', None)] @
       ticks (um_frameCount u) (length ds) @
       [(''willStop'', None),
        (''willUpdate'', Some (um_frameCount u + length ds)),
        (''didUpdate'', Some (um_frameCount u + length ds + 1)),
        (''didStop'', Some (um_frameCount u + length ds + 1))]"
proof -
  let ?u1 = "start now u"
  have "um_running ?u1" "scheduled ?u1 = 1"
    using assms by (simp_all add: start_effect)
  from frames_running [OF this, of ds] obtain u2 new2 where
    u2: "frames ds ?u1 = Some u2" "um_running u2" "scheduled u2 = 1"
      "um_frameCount u2 = um_frameCount u + length ds" "emitted u2 = emitted ?u1 @ new2"
      "map summary new2 = ticks (um_frameCount u) (length ds)"
    by (auto simp: start_effect)
  let ?u3 = "stop u2"
  have "0 < scheduled ?u3" using u2 by (simp add: stop_effect)
  from frame_effect [OF this, of d] obtain u4 new4 where
    u4: "frame d ?u3 = Some u4" "um_frameCount u4 = um_frameCount ?u3 + 1"
      "scheduled u4 = 0" "emitted u4 = emitted ?u3 @ new4"
      "map summary new4 =
         [(''willUpdate'', Some (um_frameCount ?u3)), (''didUpdate'', Some (um_frameCount ?u3 + 1)),
          (''didStop'', Some (um_frameCount ?u3 + 1))]"
    using u2 by (auto simp: stop_effect)
  have none: "frame d' u4 = None" using u4 by (simp add: frame_def)
  let ?new = "[WillStart (um_initTime u), DidStart (um_initTime u) now] @ new2 @ [WillStop] @ new4"
  have "emitted u4 = emitted u @ ?new"
    using u2 u4 by (simp add: start_effect stop_effect)
  moreover have "map summary ?new =
       [(''willStart'', None), (''didStart'', None)] @
       ticks (um_frameCount u) (length ds) @
       [(''willStop'', None),
        (''willUpdate'', Some (um_frameCount u + length ds)),
        (''didUpdate'', Some (um_frameCount u + length ds + 1)),
        (''didStop'', Some (um_frameCount u + length ds + 1))]"
    using u2 u4 by (simp add: stop_effect)
  ultimately show ?thesis
    using u2 u4 none by (auto simp: stop_effect)
qed

theorem scheduler_cycle_witness:
  "scheduled (new_update_manager 0) = 0 \<and>
   (\<exists>u2 u4.
      frames [16, 33] (start 1 (new_update_manager 0)) = Some u2 \<and>
      um_frameCount u2 = 2 \<and>
      frame 50 (stop u2) = Some u4 \<and>
      um_frameCount u4 = 3 \<and>
      frame 66 u4 = None \<and>
      map summary (emitted u4) =
        [(''willStart'', None), (''didStart'', None),
         (''willUpdate'', Some 0), (''didUpdate'', Some 1),
         (''willUpdate'', Some 1), (''didUpdate'', Some 2),
         (''willStop'', None),
         (''willUpdate'', Some 2), (''didUpdate'', Some 3), (''didStop'', Some 3)])"
proof -
  have idle: "scheduled (new_update_manager 0) = 0"
    by (simp add: new_update_manager_def)
  show ?thesis
    using scheduler_cycle [OF idle, of "[16, 33]" 1 50 66]
    apply (elim exE conjE)
    subgoal for u2 u4 new
      apply (rule conjI)
       apply (rule idle)
      apply (rule exI [of _ u2])
      apply (rule exI [of _ u4])
      apply (simp add: new_update_manager_def ticks_def numeral_2_eq_2)
      done
    done
qed

text \<open>
  C6. \<^verbatim>\<open>_start\<close> on a running scheduler: the guard reads \<^verbatim>\<open>this.running\<close>, which is
  \<^verbatim>\<open>undefined\<close>, so the second call emits \<^verbatim>\<open>willStart\<close> and \<^verbatim>\<open>didStart\<close> again, resets
  the start time and schedules a second callback.
\<close>

theorem start_while_running:
  "truthy (isRunning (start 1 (new_update_manager 0))) \<and>
   start 2 (start 1 (new_update_manager 0)) \<noteq> start 1 (new_update_manager 0) \<and>
   emitted (start 2 (start 1 (new_update_manager 0))) =
     [WillStart 0, DidStart 0 1, WillStart 0, DidStart 0 2] \<and>
   um_startTime (start 1 (new_update_manager 0)) = 1 \<and>
   um_startTime (start 2 (start 1 (new_update_manager 0))) = 2 \<and>
   scheduled (start 1 (new_update_manager 0)) = 1 \<and>
   scheduled (start 2 (start 1 (new_update_manager 0))) = 2"
  by (simp add: start_def prop_running_def isRunning_def emit_um_def requestAnimationFrame_def
        new_update_manager_def Let_def)

end
